theory Spec2Isabelle
  imports Main "HOL-Library.Multiset"
begin

section \<open>Values, objects and the store\<close>

text \<open>
  The engine works on JavaScript objects that are shared by reference and mutated in
  place, so the embedding keeps an explicit store. A value is a primitive or a reference
  into the store; a store cell is an object (its class and its own enumerable data
  properties, in the order JavaScript enumerates them) or an array.

  Scope of the model. Numbers are integers. Objects hold data properties only: there are
  no function-valued fields, accessors or symbols, and arrays carry no named properties.
  Reading a name that an object inherits from a built-in prototype (a method) therefore
  yields \<open>VUndefined\<close> here where JavaScript yields a function; the engine
  only ever asks whether such a value has \<open>typeof\<close> equal to
  \<open>'object'\<close>, which is false in both readings. Where the engine would
  re-parent an object through the name \<open>__proto__\<close> the model stops with
  \<open>Unmodelled\<close>.
\<close>

datatype val = VUndefined | VNull | VBool bool | VNum int | VStr string | VRef nat

type_synonym props = "(string \<times> val) list"

datatype cls = PlainC | EntityC | ManagerC | SystemC props

datatype cell = Obj cls props | Arr "val list"

type_synonym heap = "cell list"

datatype error = TypeError | Unmodelled

type_synonym 'a result = "(error \<times> heap) + ('a \<times> heap)"

datatype jstype = TUndefined | TObject | TBoolean | TNumber | TString

fun typeof :: "val \<Rightarrow> jstype" where
  "typeof VUndefined = TUndefined"
| "typeof VNull = TObject"
| "typeof (VBool b) = TBoolean"
| "typeof (VNum n) = TNumber"
| "typeof (VStr s) = TString"
| "typeof (VRef a) = TObject"

fun truthy :: "val \<Rightarrow> bool" where
  "truthy VUndefined = False"
| "truthy VNull = False"
| "truthy (VBool b) = b"
| "truthy (VNum n) = (n \<noteq> 0)"
| "truthy (VStr s) = (s \<noteq> [])"
| "truthy (VRef a) = True"

definition cell_at :: "heap \<Rightarrow> nat \<Rightarrow> cell option" where
  "cell_at h a = (if a < length h then Some (h ! a) else None)"

definition alloc :: "cell \<Rightarrow> heap \<Rightarrow> nat \<times> heap" where
  "alloc c h = (length h, h @ [c])"

subsection \<open>Property order\<close>

text \<open>
  JavaScript enumerates the own string keys of an object with the array indices first,
  in ascending numeric order, and the other names after them in insertion order. An
  array index is a canonical decimal numeral below \<open>2^32 - 1\<close>.
\<close>

definition is_digit :: "char \<Rightarrow> bool" where
  "is_digit c = (48 \<le> (of_char c :: int) \<and> (of_char c :: int) \<le> 57)"

definition digits_value :: "string \<Rightarrow> int" where
  "digits_value s = foldl (\<lambda>n c. 10 * n + ((of_char c :: int) - 48)) 0 s"

definition array_index :: "string \<Rightarrow> int option" where
  "array_index s =
     (if s \<noteq> [] \<and> list_all is_digit s \<and> (hd s \<noteq> CHR ''0'' \<or> s = ''0'')
         \<and> digits_value s < 4294967295
      then Some (digits_value s) else None)"

fun upd_prop :: "string \<Rightarrow> val \<Rightarrow> props \<Rightarrow> props" where
  "upd_prop k v [] = []"
| "upd_prop k v ((k', v') # ps) =
     (if k' = k then (k, v) # ps else (k', v') # upd_prop k v ps)"

fun ins_index :: "int \<Rightarrow> string \<Rightarrow> val \<Rightarrow> props \<Rightarrow> props" where
  "ins_index n k v [] = [(k, v)]"
| "ins_index n k v ((k', v') # ps) =
     (case array_index k' of
        Some m \<Rightarrow> if m < n then (k', v') # ins_index n k v ps else (k, v) # (k', v') # ps
      | None \<Rightarrow> (k, v) # (k', v') # ps)"

definition set_prop :: "string \<Rightarrow> val \<Rightarrow> props \<Rightarrow> props" where
  \<comment> \<open>\<open>obj[k] = v\<close> on the own data properties of an object\<close>
  "set_prop k v ps =
     (if k \<in> fst ` set ps then upd_prop k v ps
      else case array_index k of
             Some n \<Rightarrow> ins_index n k v ps
           | None \<Rightarrow> ps @ [(k, v)])"

fun dec :: "nat \<Rightarrow> string" where
  "dec n = (if n < 10 then [''0123456789'' ! n]
            else dec (n div 10) @ [''0123456789'' ! (n mod 10)])"

declare dec.simps [simp del]

fun index_from :: "nat \<Rightarrow> val list \<Rightarrow> props" where
  "index_from i [] = []"
| "index_from i (v # vs) = (dec i, v) # index_from (Suc i) vs"

definition index_props :: "val list \<Rightarrow> props" where
  \<comment> \<open>the indexed elements of an array or string as properties \<open>"0", "1", ...\<close>\<close>
  "index_props vs = index_from 0 vs"

subsection \<open>Reading and writing properties\<close>

fun proto_props :: "cls \<Rightarrow> props" where
  \<comment> \<open>data properties assigned on a class prototype, as
      \<open>MovableSystem.prototype.query = queries.movable\<close> does\<close>
  "proto_props (SystemC pp) = pp"
| "proto_props c = []"

definition lookup_chain :: "cls \<Rightarrow> props \<Rightarrow> string \<Rightarrow> val" where
  \<comment> \<open>an own property shadows the prototype's\<close>
  "lookup_chain c ps k =
     (case map_of ps k of
        Some v \<Rightarrow> v
      | None \<Rightarrow> (case map_of (proto_props c) k of Some v \<Rightarrow> v | None \<Rightarrow> VUndefined))"

definition this_field :: "heap \<Rightarrow> nat \<Rightarrow> string \<Rightarrow> val" where
  \<comment> \<open>\<open>this[k]\<close> for an object \<open>this\<close>\<close>
  "this_field h this k =
     (case cell_at h this of
        Some (Obj c ps) \<Rightarrow> lookup_chain c ps k
      | _ \<Rightarrow> VUndefined)"

fun own_enum :: "heap \<Rightarrow> val \<Rightarrow> props" where
  \<comment> \<open>the own enumerable string-keyed properties that \<open>for-in\<close>,
      \<open>Object.assign\<close> and spread read from a value\<close>
  "own_enum h (VRef a) =
     (case cell_at h a of
        Some (Obj c ps) \<Rightarrow> ps
      | Some (Arr vs) \<Rightarrow> index_props vs
      | None \<Rightarrow> [])"
| "own_enum h (VStr s) = index_props (map (\<lambda>c. VStr [c]) s)"
| "own_enum h v = []"

fun inherited_enum :: "heap \<Rightarrow> val \<Rightarrow> props" where
  "inherited_enum h (VRef a) =
     (case cell_at h a of Some (Obj c ps) \<Rightarrow> proto_props c | _ \<Rightarrow> [])"
| "inherited_enum h v = []"

definition for_in_keys :: "heap \<Rightarrow> val \<Rightarrow> string list" where
  \<comment> \<open>\<open>for (key in v)\<close>: own enumerable names, then unshadowed inherited ones;
      nothing for \<open>undefined\<close> and \<open>null\<close>\<close>
  "for_in_keys h v =
     (let own = map fst (own_enum h v)
      in own @ filter (\<lambda>k. k \<notin> set own) (map fst (inherited_enum h v)))"

fun get_prop :: "heap \<Rightarrow> val \<Rightarrow> string \<Rightarrow> val option" where
  \<comment> \<open>\<open>v[k]\<close>; \<open>None\<close> is the TypeError of reading a property of
      \<open>undefined\<close> or \<open>null\<close>\<close>
  "get_prop h VUndefined k = None"
| "get_prop h VNull k = None"
| "get_prop h (VRef a) k =
     (case cell_at h a of
        Some (Obj c ps) \<Rightarrow> Some (lookup_chain c ps k)
      | Some (Arr vs) \<Rightarrow>
          Some (if k = ''length'' then VNum (int (length vs))
                else case map_of (index_props vs) k of Some v \<Rightarrow> v | None \<Rightarrow> VUndefined)
      | None \<Rightarrow> Some VUndefined)"
| "get_prop h (VStr s) k =
     Some (if k = ''length'' then VNum (int (length s))
           else case map_of (index_props (map (\<lambda>c. VStr [c]) s)) k of
                  Some v \<Rightarrow> v | None \<Rightarrow> VUndefined)"
| "get_prop h v k = Some VUndefined"

definition put_own :: "heap \<Rightarrow> nat \<Rightarrow> string \<Rightarrow> val \<Rightarrow> heap" where
  \<comment> \<open>\<open>this[k] = v\<close> for an object \<open>this\<close>\<close>
  "put_own h this k v =
     (case cell_at h this of
        Some (Obj c ps) \<Rightarrow> h[this := Obj c (set_prop k v ps)]
      | _ \<Rightarrow> h)"

definition put_prop :: "heap \<Rightarrow> val \<Rightarrow> string \<Rightarrow> val \<Rightarrow> (error \<times> heap) + heap" where
  \<comment> \<open>\<open>x[k] = v\<close> in strict mode (class bodies are strict): a TypeError on
      \<open>undefined\<close>, \<open>null\<close> and every primitive\<close>
  "put_prop h x k v =
     (case x of
        VRef a \<Rightarrow>
          (case cell_at h a of
             Some (Obj c ps) \<Rightarrow> Inr (h[a := Obj c (set_prop k v ps)])
           | _ \<Rightarrow> Inl (Unmodelled, h))
      | _ \<Rightarrow> Inl (TypeError, h))"

definition array_at :: "heap \<Rightarrow> val \<Rightarrow> (nat \<times> val list) option" where
  \<comment> \<open>the array a value refers to; every array method the engine calls is missing on
      anything else, so \<open>None\<close> ends in a TypeError\<close>
  "array_at h v =
     (case v of
        VRef a \<Rightarrow> (case cell_at h a of Some (Arr vs) \<Rightarrow> Some (a, vs) | _ \<Rightarrow> None)
      | _ \<Rightarrow> None)"

subsection \<open>Method dispatch\<close>

definition object_prototype_names :: "string list" where
  "object_prototype_names =
     [''constructor'', ''__defineGetter__'', ''__defineSetter__'', ''hasOwnProperty'',
      ''__lookupGetter__'', ''__lookupSetter__'', ''isPrototypeOf'',
      ''propertyIsEnumerable'', ''toString'', ''valueOf'', ''__proto__'',
      ''toLocaleString'']"

fun class_methods :: "cls \<Rightarrow> string list" where
  "class_methods ManagerC =
     [''registerSystem'', ''update'', ''createEntity'', ''destroyEntity'', ''getEntities'',
      ''sortEntities'', ''pause'']"
| "class_methods EntityC = [''assign'']"
| "class_methods (SystemC pp) = [''getEntities'', ''_update'', ''update'']"
| "class_methods PlainC = []"

definition has_method :: "heap \<Rightarrow> val \<Rightarrow> string \<Rightarrow> bool" where
  \<comment> \<open>\<open>recv.name(...)\<close> finds a function: the class (or \<open>Object.prototype\<close>)
      defines \<open>name\<close> and no data property of the object or of its prototype
      shadows it\<close>
  "has_method h recv name =
     (case recv of
        VRef a \<Rightarrow>
          (case cell_at h a of
             Some (Obj c ps) \<Rightarrow>
               name \<notin> fst ` set ps \<and> name \<notin> fst ` set (proto_props c)
               \<and> (name \<in> set (class_methods c) \<or> name \<in> set object_prototype_names)
           | _ \<Rightarrow> False)
      | _ \<Rightarrow> False)"

definition resolves :: "heap \<Rightarrow> nat \<Rightarrow> string \<Rightarrow> cls option" where
  \<comment> \<open>the class whose method the call \<open>this.name(...)\<close> reaches, if any: each
      function below models the method of one class and answers only such calls\<close>
  "resolves h this name =
     (case cell_at h this of
        Some (Obj c ps) \<Rightarrow>
          if name \<notin> fst ` set ps \<and> name \<notin> fst ` set (proto_props c)
             \<and> name \<in> set (class_methods c)
          then Some c else None
      | _ \<Rightarrow> None)"

fun is_system_class :: "cls option \<Rightarrow> bool" where
  "is_system_class (Some (SystemC pp)) = True"
| "is_system_class c = False"

section \<open>EntityManager\<close>

definition new_EntityManager :: "heap \<Rightarrow> nat \<times> heap" where
  "new_EntityManager h =
     (let (this, h1) = alloc (Obj ManagerC []) h;
          (es, h2) = alloc (Arr []) h1;
          h3 = put_own h2 this ''entities'' (VRef es);
          (ss, h4) = alloc (Arr []) h3;
          h5 = put_own h4 this ''systems'' (VRef ss)
      in (this, h5))"

definition registerSystem :: "heap \<Rightarrow> nat \<Rightarrow> val \<Rightarrow> val result" where
  "registerSystem h this system =
     (if resolves h this ''registerSystem'' \<noteq> Some ManagerC then Inl (TypeError, h)
      else case put_prop h system ''entityManager'' (VRef this) of
             Inl e \<Rightarrow> Inl e
           | Inr h1 \<Rightarrow>
               (case array_at h1 (this_field h1 this ''systems'') of
                  None \<Rightarrow> Inl (TypeError, h1)
                | Some (a, vs) \<Rightarrow> Inr (system, h1[a := Arr (vs @ [system])])))"

definition priority_key :: "heap \<Rightarrow> val \<Rightarrow> int" where
  \<comment> \<open>the number the comparator \<open>a.priority - b.priority\<close> orders by; with a
      priority that is not a number the order \<open>Array.prototype.sort\<close> gives is
      implementation-defined, and \<open>0\<close> stands in\<close>
  "priority_key h v = (case get_prop h v ''priority'' of Some (VNum n) \<Rightarrow> n | _ \<Rightarrow> 0)"

type_synonym call = "val \<times> val \<times> val"

fun invoke_systems :: "heap \<Rightarrow> val list \<Rightarrow> val \<Rightarrow> val \<Rightarrow> call list option" where
  \<comment> \<open>\<open>for (const system of this.systems) system._update(delta, time)\<close>, where
      \<open>_update\<close> forwards to \<open>this.update(delta, time)\<close>. What a concrete
      system does in its tick is outside the engine: the model records the call and, like
      the base \<open>System.update\<close>, leaves the store unchanged.\<close>
  "invoke_systems h [] delta time = Some []"
| "invoke_systems h (system # rest) delta time =
     (if has_method h system ''_update'' \<and> has_method h system ''update''
      then (case invoke_systems h rest delta time of
              None \<Rightarrow> None
            | Some calls \<Rightarrow> Some ((system, delta, time) # calls))
      else None)"

definition update :: "heap \<Rightarrow> nat \<Rightarrow> val \<Rightarrow> val \<Rightarrow> (call list) result" where
  \<comment> \<open>\<open>Array.prototype.sort\<close> is stable; \<open>sort_key\<close> is the stable sort\<close>
  "update h this delta time =
     (if resolves h this ''update'' \<noteq> Some ManagerC then Inl (TypeError, h)
      else case array_at h (this_field h this ''systems'') of
             None \<Rightarrow> Inl (TypeError, h)
           | Some (a, vs) \<Rightarrow>
               (let sorted_systems = sort_key (priority_key h) vs;
                    h1 = h[a := Arr sorted_systems]
                in case invoke_systems h1 sorted_systems delta time of
                     None \<Rightarrow> Inl (TypeError, h1)
                   | Some calls \<Rightarrow> Inr (calls, h1)))"

definition new_Entity :: "heap \<Rightarrow> val \<Rightarrow> nat \<times> heap" where
  "new_Entity h priority =
     (let (this, h1) = alloc (Obj EntityC []) h;
          h2 = put_own h1 this ''entityManager'' VNull;
          h3 = put_own h2 this ''priority'' (if truthy priority then priority else VNum 0)
      in (this, h3))"

definition createEntity :: "heap \<Rightarrow> nat \<Rightarrow> val \<Rightarrow> val result" where
  "createEntity h this priority =
     (if resolves h this ''createEntity'' \<noteq> Some ManagerC then Inl (TypeError, h)
      else let (entity, h1) = new_Entity h priority;
               h2 = put_own h1 entity ''entityManager'' (VRef this)
           in case array_at h2 (this_field h2 this ''entities'') of
                None \<Rightarrow> Inl (TypeError, h2)
              | Some (a, vs) \<Rightarrow> Inr (VRef entity, h2[a := Arr (vs @ [VRef entity])]))"

fun indexOf :: "val list \<Rightarrow> val \<Rightarrow> int" where
  \<comment> \<open>\<open>Array.prototype.indexOf\<close>: the first position holding the identical value,
      \<open>-1\<close> when there is none\<close>
  "indexOf [] x = - 1"
| "indexOf (y # ys) x =
     (if y = x then 0 else (let i = indexOf ys x in if i = - 1 then - 1 else i + 1))"

definition splice1 :: "val list \<Rightarrow> nat \<Rightarrow> val list" where
  \<comment> \<open>\<open>xs.splice(i, 1)\<close>\<close>
  "splice1 xs i = take i xs @ drop (Suc i) xs"

definition destroyEntity :: "heap \<Rightarrow> nat \<Rightarrow> val \<Rightarrow> val result" where
  "destroyEntity h this entity =
     (if resolves h this ''destroyEntity'' \<noteq> Some ManagerC then Inl (TypeError, h)
      else case array_at h (this_field h this ''entities'') of
             None \<Rightarrow> Inl (TypeError, h)
           | Some (a, vs) \<Rightarrow>
               (let index = indexOf vs entity
                in if index \<noteq> - 1
                   then Inr (VUndefined, h[a := Arr (splice1 vs (nat index))])
                   else Inr (VUndefined, h)))"

fun getOwnPropertyNames :: "heap \<Rightarrow> val \<Rightarrow> val list option" where
  \<comment> \<open>\<open>Object.getOwnPropertyNames(v)\<close>; \<open>None\<close> is the TypeError on
      \<open>undefined\<close> and \<open>null\<close>\<close>
  "getOwnPropertyNames h VUndefined = None"
| "getOwnPropertyNames h VNull = None"
| "getOwnPropertyNames h (VRef a) =
     (case cell_at h a of
        Some (Obj c ps) \<Rightarrow> Some (map (\<lambda>p. VStr (fst p)) ps)
      | Some (Arr vs) \<Rightarrow> Some (map (\<lambda>p. VStr (fst p)) (index_props vs) @ [VStr ''length''])
      | None \<Rightarrow> Some [])"
| "getOwnPropertyNames h (VStr s) =
     Some (map (\<lambda>p. VStr (fst p)) (index_props (map (\<lambda>c. VStr [c]) s)) @ [VStr ''length''])"
| "getOwnPropertyNames h v = Some []"

fun filter_entities :: "heap \<Rightarrow> val \<Rightarrow> val list \<Rightarrow> val list option" where
  \<comment> \<open>the callback of \<open>this.entities.filter\<close>, run over the registry in order\<close>
  "filter_entities h query [] = Some []"
| "filter_entities h query (entity # rest) =
     (case getOwnPropertyNames h entity of
        None \<Rightarrow> None
      | Some entityProperties \<Rightarrow>
          (case array_at h query of
             None \<Rightarrow> None
           | Some (qa, q) \<Rightarrow>
               (case filter_entities h query rest of
                  None \<Rightarrow> None
                | Some out \<Rightarrow>
                    Some (if list_all (\<lambda>prop. prop \<in> set entityProperties) q
                          then entity # out else out))))"

definition getEntities :: "heap \<Rightarrow> nat \<Rightarrow> val \<Rightarrow> val result" where
  "getEntities h this query =
     (if resolves h this ''getEntities'' \<noteq> Some ManagerC then Inl (TypeError, h)
      else case array_at h (this_field h this ''entities'') of
             None \<Rightarrow> Inl (TypeError, h)
           | Some (a, vs) \<Rightarrow>
               (case filter_entities h query vs of
                  None \<Rightarrow> Inl (TypeError, h)
                | Some out \<Rightarrow> (let (r, h1) = alloc (Arr out) h in Inr (VRef r, h1))))"

definition sortEntities :: "heap \<Rightarrow> nat \<Rightarrow> val result" where
  "sortEntities h this =
     (if resolves h this ''sortEntities'' \<noteq> Some ManagerC then Inl (TypeError, h)
      else case array_at h (this_field h this ''entities'') of
             None \<Rightarrow> Inl (TypeError, h)
           | Some (a, vs) \<Rightarrow> Inr (VUndefined, h[a := Arr (sort_key (priority_key h) vs)]))"

definition pause :: "heap \<Rightarrow> nat \<Rightarrow> val result" where
  \<comment> \<open>\<open>this.entities.length = 0\<close>\<close>
  "pause h this =
     (if resolves h this ''pause'' \<noteq> Some ManagerC then Inl (TypeError, h)
      else case this_field h this ''entities'' of
             VRef a \<Rightarrow>
               (case cell_at h a of
                  Some (Arr vs) \<Rightarrow> Inr (VUndefined, h[a := Arr []])
                | Some (Obj c ps) \<Rightarrow>
                    Inr (VUndefined, h[a := Obj c (set_prop ''length'' (VNum 0) ps)])
                | None \<Rightarrow> Inl (Unmodelled, h))
           | _ \<Rightarrow> Inl (TypeError, h))"

section \<open>Entity\<close>

definition assign_into :: "props \<Rightarrow> props \<Rightarrow> props" where
  \<comment> \<open>copy the properties of one source onto a target, in the source's order\<close>
  "assign_into target source = fold (\<lambda>(k, v). set_prop k v) source target"

definition object_assign :: "heap \<Rightarrow> val \<Rightarrow> val \<Rightarrow> props" where
  \<comment> \<open>the properties of the fresh object \<open>Object.assign({}, a, b)\<close>, which are
      also those of \<open>{...a, ...b}\<close>\<close>
  "object_assign h a b = assign_into (assign_into [] (own_enum h a)) (own_enum h b)"

definition assign_key :: "heap \<Rightarrow> nat \<Rightarrow> val \<Rightarrow> string \<Rightarrow> (error \<times> heap) + heap" where
  \<comment> \<open>the body of the inner loop of \<open>assign\<close>\<close>
  "assign_key h this component key =
     (if key = ''__proto__'' then Inl (Unmodelled, h)
      else case get_prop h component key of
             None \<Rightarrow> Inl (TypeError, h)
           | Some incoming \<Rightarrow>
               if typeof incoming = TObject \<and> typeof (this_field h this key) = TObject
               then (let (n, h1) = alloc (Obj PlainC (object_assign h (this_field h this key) incoming)) h
                     in Inr (put_own h1 this key (VRef n)))
               else if \<not> has_method h (VRef this) ''hasOwnProperty'' then Inl (TypeError, h)
               else (let h2 = (if key \<notin> fst ` set (own_enum h (VRef this))
                               then (let (n, h1) = alloc (Obj PlainC []) h
                                     in put_own h1 this key (VRef n))
                               else h)
                     in Inr (put_own h2 this key incoming)))"

fun assign_keys :: "heap \<Rightarrow> nat \<Rightarrow> val \<Rightarrow> string list \<Rightarrow> (error \<times> heap) + heap" where
  "assign_keys h this component [] = Inr h"
| "assign_keys h this component (key # keys) =
     (case assign_key h this component key of
        Inl e \<Rightarrow> Inl e
      | Inr h1 \<Rightarrow> assign_keys h1 this component keys)"

fun assign_components :: "heap \<Rightarrow> nat \<Rightarrow> val list \<Rightarrow> (error \<times> heap) + heap" where
  "assign_components h this [] = Inr h"
| "assign_components h this (component # components) =
     (case assign_keys h this component (for_in_keys h component) of
        Inl e \<Rightarrow> Inl e
      | Inr h1 \<Rightarrow> assign_components h1 this components)"

definition assign :: "heap \<Rightarrow> nat \<Rightarrow> val list \<Rightarrow> val result" where
  "assign h this components =
     (if resolves h this ''assign'' \<noteq> Some EntityC then Inl (TypeError, h)
      else case assign_components h this components of
             Inl e \<Rightarrow> Inl e
           | Inr h1 \<Rightarrow> Inr (VRef this, h1))"

section \<open>System\<close>

definition new_System :: "heap \<Rightarrow> props \<Rightarrow> val \<Rightarrow> val \<Rightarrow> nat \<times> heap" where
  \<comment> \<open>\<open>new C(priority, query)\<close> for \<open>System\<close> or a subclass \<open>C\<close> of it
      without a constructor of its own; \<open>proto\<close> holds the data properties assigned
      on \<open>C.prototype\<close>\<close>
  "new_System h proto priority query =
     (let (this, h1) = alloc (Obj (SystemC proto) []) h;
          h2 = put_own h1 this ''entityManager'' VNull;
          h3 = put_own h2 this ''priority'' (if truthy priority then priority else VNum 0);
          (q, h4) = (if truthy query then (query, h3)
                     else (let (a, h') = alloc (Arr []) h3 in (VRef a, h')))
      in (this, put_own h4 this ''query'' q))"

definition System_getEntities :: "heap \<Rightarrow> nat \<Rightarrow> val result" where
  \<comment> \<open>\<open>this.entityManager.getEntities(this.query)\<close>; when the receiver is itself a
      system the call would come back here, which the model does not follow\<close>
  "System_getEntities h this =
     (if \<not> is_system_class (resolves h this ''getEntities'') then Inl (TypeError, h)
      else case this_field h this ''entityManager'' of
             VRef m \<Rightarrow>
               if is_system_class (resolves h m ''getEntities'') then Inl (Unmodelled, h)
               else getEntities h m (this_field h this ''query'')
           | _ \<Rightarrow> Inl (TypeError, h))"

section \<open>The component factory\<close>

definition in_op :: "props \<Rightarrow> string \<Rightarrow> bool" where
  \<comment> \<open>\<open>key in obj\<close> for a plain object: own names and those of
      \<open>Object.prototype\<close>\<close>
  "in_op ps key = (key \<in> fst ` set ps \<or> key \<in> set object_prototype_names)"

definition compute_key :: "heap \<Rightarrow> val \<Rightarrow> val \<Rightarrow> props \<Rightarrow> string \<Rightarrow> (error \<times> heap) + (props \<times> heap)" where
  \<comment> \<open>the body of the first loop of \<open>compute\<close>; \<open>computedOptions\<close> never leaves
      the function, so it is kept as a value and not as a store cell\<close>
  "compute_key h options defaults computedOptions key =
     (if in_op computedOptions key then
        (if key = ''__proto__'' \<and> key \<notin> fst ` set computedOptions then Inl (Unmodelled, h)
         else case get_prop h options key of
                None \<Rightarrow> Inl (TypeError, h)
              | Some incoming \<Rightarrow>
                  if typeof incoming = TObject
                  then (case get_prop h defaults key of
                          None \<Rightarrow> Inl (TypeError, h)
                        | Some d \<Rightarrow>
                            (let (n, h1) = alloc (Obj PlainC (object_assign h d incoming)) h
                             in Inr (set_prop key (VRef n) computedOptions, h1)))
                  else Inr (set_prop key incoming computedOptions, h))
      else Inr (computedOptions, h))"

fun compute_keys :: "heap \<Rightarrow> val \<Rightarrow> val \<Rightarrow> props \<Rightarrow> string list \<Rightarrow> (error \<times> heap) + (props \<times> heap)" where
  "compute_keys h options defaults computedOptions [] = Inr (computedOptions, h)"
| "compute_keys h options defaults computedOptions (key # keys) =
     (case compute_key h options defaults computedOptions key of
        Inl e \<Rightarrow> Inl e
      | Inr (co, h1) \<Rightarrow> compute_keys h1 options defaults co keys)"

fun push_fragments :: "heap \<Rightarrow> nat \<Rightarrow> props \<Rightarrow> heap" where
  \<comment> \<open>\<open>for (let key in computedOptions) obj.push({ [key]: computedOptions[key] })\<close>\<close>
  "push_fragments h obj [] = h"
| "push_fragments h obj ((key, v) # rest) =
     (let (f, h1) = alloc (Obj PlainC (set_prop key v [])) h;
          h2 = (case cell_at h1 obj of
                  Some (Arr vs) \<Rightarrow> h1[obj := Arr (vs @ [VRef f])]
                | _ \<Rightarrow> h1)
      in push_fragments h2 obj rest)"

definition compute :: "heap \<Rightarrow> val \<Rightarrow> val \<Rightarrow> val result" where
  "compute h options defaults =
     (case compute_keys h options defaults (assign_into [] (own_enum h defaults))
             (for_in_keys h options) of
        Inl e \<Rightarrow> Inl e
      | Inr (computedOptions, h1) \<Rightarrow>
          (let (obj, h2) = alloc (Arr []) h1
           in Inr (VRef obj, push_fragments h2 obj computedOptions)))"

section \<open>Notions used in the statements\<close>

fun owns :: "heap \<Rightarrow> val \<Rightarrow> string \<Rightarrow> bool" where
  \<comment> \<open>an object owns a field when the name is among its own keys, whatever the value\<close>
  "owns h (VRef a) k =
     (case cell_at h a of Some (Obj c ps) \<Rightarrow> k \<in> fst ` set ps | _ \<Rightarrow> False)"
| "owns h v k = False"



definition valid_val :: "heap \<Rightarrow> val \<Rightarrow> bool" where
  \<comment> \<open>a reference points into the store\<close>
  "valid_val h v = (case v of VRef a \<Rightarrow> a < length h | _ \<Rightarrow> True)"




definition field_or_undefined :: "props \<Rightarrow> string \<Rightarrow> val" where
  \<comment> \<open>the value an entity holds under a name: \<open>undefined\<close> when it owns none\<close>
  "field_or_undefined ps k = (case map_of ps k of Some v \<Rightarrow> v | None \<Rightarrow> VUndefined)"

subsection \<open>The specification's wording\<close>

text \<open>
  The definitions of this subsection follow the words of the specification, not the
  source; the counterexamples compare them with the functions embedded from the source.
\<close>

definition field_container :: "val \<Rightarrow> bool" where
  \<comment> \<open>the specification's field-container: a structured, non-primitive value\<close>
  "field_container v = (case v of VRef a \<Rightarrow> True | _ \<Rightarrow> False)"


section \<open>Sequences of engine operations\<close>

text \<open>
  The operations the engine offers, each with its receiver and arguments: the three
  constructors, the methods of the three classes, the component factory, and the
  object and array literals a program passes in.
\<close>

datatype op =
    NewEntityManager
  | RegisterSystem nat val
  | Update nat val val
  | CreateEntity nat val
  | DestroyEntity nat val
  | GetEntities nat val
  | SortEntities nat
  | Pause nat
  | NewEntity val
  | Assign nat "val list"
  | NewSystem props val val
  | SystemGetEntities nat
  | Compute val val
  | Literal cell

fun heap_after :: "'a result \<Rightarrow> heap" where
  \<comment> \<open>the store an operation leaves, whether it returned or threw\<close>
  "heap_after (Inl (e, h)) = h"
| "heap_after (Inr (x, h)) = h"

fun step :: "op \<Rightarrow> heap \<Rightarrow> heap" where
  "step NewEntityManager h = snd (new_EntityManager h)"
| "step (RegisterSystem this system) h = heap_after (registerSystem h this system)"
| "step (Update this delta time) h = heap_after (update h this delta time)"
| "step (CreateEntity this priority) h = heap_after (createEntity h this priority)"
| "step (DestroyEntity this entity) h = heap_after (destroyEntity h this entity)"
| "step (GetEntities this query) h = heap_after (getEntities h this query)"
| "step (SortEntities this) h = heap_after (sortEntities h this)"
| "step (Pause this) h = heap_after (pause h this)"
| "step (NewEntity priority) h = snd (new_Entity h priority)"
| "step (Assign this components) h = heap_after (assign h this components)"
| "step (NewSystem proto priority query) h = snd (new_System h proto priority query)"
| "step (SystemGetEntities this) h = heap_after (System_getEntities h this)"
| "step (Compute options defaults) h = heap_after (compute h options defaults)"
| "step (Literal c) h =
     (case c of Obj PlainC ps \<Rightarrow> h @ [c] | Arr vs \<Rightarrow> h @ [c] | _ \<Rightarrow> h)"

definition run :: "op list \<Rightarrow> heap \<Rightarrow> heap" where
  "run ops h = fold step ops h"



fun cell_keeps :: "cell \<Rightarrow> cell \<Rightarrow> bool" where
  "cell_keeps (Obj c ps) (Obj c' ps') = (c' = c \<and> fst ` set ps \<subseteq> fst ` set ps')"
| "cell_keeps (Arr vs) (Arr vs') = True"
| "cell_keeps c c' = False"

definition keeps :: "heap \<Rightarrow> heap \<Rightarrow> bool" where
  \<comment> \<open>every cell is still there, of the same kind and class, with at least its keys\<close>
  "keeps h h' = (length h \<le> length h' \<and> (\<forall>x<length h. cell_keeps (h ! x) (h' ! x)))"

fun is_manager :: "cell \<Rightarrow> bool" where
  "is_manager (Obj ManagerC ps) = True"
| "is_manager c = False"





section \<open>Example stores\<close>

definition ex_world :: heap where
  \<comment> \<open>a manager whose registry holds entity 3, entity 4 and entity 3 again\<close>
  "ex_world =
     [Obj ManagerC [(''entities'', VRef 1), (''systems'', VRef 2)],
      Arr [VRef 3, VRef 4, VRef 3],
      Arr [],
      Obj EntityC [(''entityManager'', VRef 0), (''priority'', VNum 0)],
      Obj EntityC [(''entityManager'', VRef 0), (''priority'', VNum 0)]]"

definition ex_query_world :: heap where
  \<comment> \<open>entity 3 owns \<open>position\<close> with the value \<open>undefined\<close>, entity 4 does not
      own it, entity 5 owns it with a container\<close>
  "ex_query_world =
     [Obj ManagerC [(''entities'', VRef 1), (''systems'', VRef 2)],
      Arr [VRef 3, VRef 4, VRef 5],
      Arr [],
      Obj EntityC [(''entityManager'', VRef 0), (''priority'', VNum 0),
                   (''position'', VUndefined)],
      Obj EntityC [(''entityManager'', VRef 0), (''priority'', VNum 0)],
      Obj EntityC [(''entityManager'', VRef 0), (''priority'', VNum 0),
                   (''position'', VRef 7), (''velocity'', VNum 2)],
      Arr [VStr ''position''],
      Obj PlainC [(''x'', VNum 0)]]"

definition ex_game :: heap where
  \<comment> \<open>a world with a movable entity (3) and a shape-only entity (4); cell 7 is the
      array \<open>queries.movable\<close>\<close>
  "ex_game =
     [Obj ManagerC [(''entities'', VRef 1), (''systems'', VRef 2)],
      Arr [VRef 3, VRef 4],
      Arr [],
      Obj EntityC [(''entityManager'', VRef 0), (''priority'', VNum 0),
                   (''position'', VRef 5), (''velocity'', VRef 6)],
      Obj EntityC [(''entityManager'', VRef 0), (''priority'', VNum 0),
                   (''shape'', VStr ''box'')],
      Obj PlainC [(''x'', VNum 0), (''y'', VNum 0)],
      Obj PlainC [(''x'', VNum 1), (''y'', VNum 1)],
      Arr [VStr ''position'', VStr ''velocity'']]"

definition ex_movable :: heap where
  \<comment> \<open>\<open>ex_game\<close> after \<open>new MovableSystem()\<close>, whose class prototype carries
      \<open>query = queries.movable\<close>\<close>
  "ex_movable =
     ex_game @
     [Obj (SystemC [(''query'', VRef 7)])
        [(''entityManager'', VNull), (''priority'', VNum 0), (''query'', VRef 9)],
      Arr []]"

definition ex_registered :: heap where
  \<comment> \<open>\<open>ex_movable\<close> after \<open>world.registerSystem\<close> of that system\<close>
  "ex_registered =
     [Obj ManagerC [(''entities'', VRef 1), (''systems'', VRef 2)],
      Arr [VRef 3, VRef 4],
      Arr [VRef 8],
      Obj EntityC [(''entityManager'', VRef 0), (''priority'', VNum 0),
                   (''position'', VRef 5), (''velocity'', VRef 6)],
      Obj EntityC [(''entityManager'', VRef 0), (''priority'', VNum 0),
                   (''shape'', VStr ''box'')],
      Obj PlainC [(''x'', VNum 0), (''y'', VNum 0)],
      Obj PlainC [(''x'', VNum 1), (''y'', VNum 1)],
      Arr [VStr ''position'', VStr ''velocity''],
      Obj (SystemC [(''query'', VRef 7)])
        [(''entityManager'', VRef 0), (''priority'', VNum 0), (''query'', VRef 9)],
      Arr []]"








definition ex_null :: heap where
  \<comment> \<open>an entity (cell 0) owning \<open>{p: 1}\<close> under \<open>a\<close>, and the fragment
      \<open>{a: null}\<close> (cell 2)\<close>
  "ex_null =
     [Obj EntityC [(''entityManager'', VNull), (''priority'', VNum 0), (''a'', VRef 1)],
      Obj PlainC [(''p'', VNum 1)],
      Obj PlainC [(''a'', VNull)]]"




section \<open>Basic facts about the store\<close>

lemma cell_at_Some: "cell_at h a = Some c \<Longrightarrow> a < length h \<and> h ! a = c"
  by (simp add: cell_at_def split: if_splits)

lemma cell_at_update:
  "cell_at (h[a := c]) b = (if b = a \<and> a < length h then Some c else cell_at h b)"
  by (simp add: cell_at_def)

lemma array_at_cell:
  "array_at h v = Some (a, vs) \<Longrightarrow> v = VRef a \<and> cell_at h a = Some (Arr vs)"
  by (auto simp: array_at_def split: val.splits option.splits cell.splits)

lemma this_field_update_arr:
  "cell_at h a = Some (Arr vs) \<Longrightarrow> this_field (h[a := Arr ws]) m k = this_field h m k"
  using cell_at_Some [of h a "Arr vs"]
  by (cases "m = a") (simp_all add: this_field_def cell_at_update)

section \<open>Destroying an entity\<close>

lemma indexOf_absent: "x \<notin> set ys \<Longrightarrow> indexOf ys x = - 1"
  by (induction ys) (auto simp: Let_def)

lemma indexOf_nonneg: "x \<in> set ys \<Longrightarrow> 0 \<le> indexOf ys x"
  by (induction ys) (auto simp: Let_def)

lemma splice1_indexOf: "x \<in> set ys \<Longrightarrow> splice1 ys (nat (indexOf ys x)) = remove1 x ys"
proof (induction ys)
  case Nil
  then show ?case by simp
next
  case (Cons y ys)
  show ?case
  proof (cases "y = x")
    case True
    then show ?thesis by (simp add: splice1_def)
  next
    case False
    with Cons.prems have mem: "x \<in> set ys" by simp
    from indexOf_nonneg [OF mem] have nn: "0 \<le> indexOf ys x" .
    then have "nat (indexOf ys x + 1) = Suc (nat (indexOf ys x))" by simp
    with False nn Cons.IH [OF mem] show ?thesis
      by (simp add: splice1_def Let_def)
  qed
qed

lemma remove1_first: "x \<notin> set xs \<Longrightarrow> remove1 x (xs @ x # ys) = xs @ ys"
  by (induction xs) auto

text \<open>
  Claim C9. For a manager whose \<open>entities\<close> field is the registry array \<open>es\<close>,
  \<open>destroyEntity(E)\<close> returns normally and leaves the registry equal to \<open>es\<close> with
  the first entry identical to \<open>E\<close> removed: when \<open>es = xs @ E # ys\<close> with \<open>E\<close>
  not in \<open>xs\<close> the registry becomes \<open>xs @ ys\<close>. No other cell of the store changes,
  and when \<open>E\<close> is not in the registry the whole store is left as it was.
\<close>

theorem destroyEntity_removes_first_occurrence:
  assumes meth: "resolves h m ''destroyEntity'' = Some ManagerC"
      and reg: "array_at h (this_field h m ''entities'') = Some (a, es)"
  shows "\<exists>h'. destroyEntity h m E = Inr (VUndefined, h')
            \<and> array_at h' (this_field h' m ''entities'') = Some (a, remove1 E es)
            \<and> (\<forall>xs ys. es = xs @ E # ys \<and> E \<notin> set xs \<longrightarrow> remove1 E es = xs @ ys)
            \<and> length h' = length h
            \<and> (\<forall>b. b \<noteq> a \<longrightarrow> cell_at h' b = cell_at h b)
            \<and> (E \<notin> set es \<longrightarrow> h' = h)"
proof -
  from array_at_cell [OF reg] have fld: "this_field h m ''entities'' = VRef a"
    and cell: "cell_at h a = Some (Arr es)" by simp_all
  then have lt: "a < length h" and nth: "h ! a = Arr es"
    by (auto simp: cell_at_def split: if_splits)
  show ?thesis
  proof (cases "E \<in> set es")
    case True
    then have ne: "indexOf es E \<noteq> - 1" using indexOf_nonneg [of E es] by auto
    let ?h = "h[a := Arr (remove1 E es)]"
    have "destroyEntity h m E = Inr (VUndefined, ?h)"
      using meth reg ne splice1_indexOf [OF True] by (simp add: destroyEntity_def Let_def)
    moreover have "array_at ?h (this_field ?h m ''entities'') = Some (a, remove1 E es)"
      using fld cell lt by (simp add: this_field_update_arr array_at_def cell_at_update)
    ultimately show ?thesis using True
      by (auto simp: cell_at_update remove1_first)
  next
    case False
    have "destroyEntity h m E = Inr (VUndefined, h)"
      using meth reg indexOf_absent [OF False] by (simp add: destroyEntity_def Let_def)
    then show ?thesis using False reg by (auto simp: remove1_idem)
  qed
qed

theorem destroyEntity_removes_first_occurrence_witness:
  "resolves ex_world 0 ''destroyEntity'' = Some ManagerC
   \<and> array_at ex_world (this_field ex_world 0 ''entities'') = Some (1, [VRef 3, VRef 4, VRef 3])
   \<and> (\<exists>h'. destroyEntity ex_world 0 (VRef 3) = Inr (VUndefined, h')
          \<and> array_at h' (this_field h' 0 ''entities'') = Some (1, [VRef 4, VRef 3]))"
proof -
  have m: "resolves ex_world 0 ''destroyEntity'' = Some ManagerC"
    by (simp add: ex_world_def resolves_def cell_at_def)
  have r: "array_at ex_world (this_field ex_world 0 ''entities'')
             = Some (1, [VRef 3, VRef 4, VRef 3])"
    by (simp add: ex_world_def array_at_def this_field_def cell_at_def lookup_chain_def)
  from destroyEntity_removes_first_occurrence [OF m r, of "VRef 3"] m r show ?thesis
    by auto
qed

section \<open>Selecting entities\<close>

lemma includes_names:
  "list_all (\<lambda>prop. prop \<in> (\<lambda>p. VStr (fst p)) ` set ps) (map VStr Q)
     = (\<forall>k\<in>set Q. k \<in> fst ` set ps)"
  by (auto simp: list_all_iff)

lemma filter_entities_objects:
  assumes qry: "array_at h query = Some (qa, map VStr Q)"
      and ents: "\<forall>e\<in>set es. \<exists>b c ps. e = VRef b \<and> cell_at h b = Some (Obj c ps)"
  shows "filter_entities h query es = Some (filter (\<lambda>e. \<forall>k\<in>set Q. owns h e k) es)"
  using ents
proof (induction es)
  case Nil
  then show ?case by simp
next
  case (Cons e es)
  then obtain b c ps where e: "e = VRef b" and cell: "cell_at h b = Some (Obj c ps)"
    by auto
  from Cons have rest:
    "filter_entities h query es = Some (filter (\<lambda>e. \<forall>k\<in>set Q. owns h e k) es)"
    by simp
  show ?case using e cell qry rest by (simp add: includes_names)
qed

text \<open>
  Claim C1. For a manager whose registry \<open>es\<close> holds entity objects and a query that
  is an array of the field names \<open>Q\<close>, \<open>getEntities(Q)\<close> returns a fresh array
  holding exactly the registry entries that own every name of \<open>Q\<close>, in registry
  order: an entry \<open>E\<close> of the registry is in the result if and only if it owns all
  the names, where owning a name looks at the entity's own keys only and never at the
  value stored under them. With the empty query the result is the whole registry.
\<close>

theorem getEntities_selects_owners:
  assumes meth: "resolves h m ''getEntities'' = Some ManagerC"
      and reg: "array_at h (this_field h m ''entities'') = Some (a, es)"
      and ents: "\<forall>e\<in>set es. \<exists>b c ps. e = VRef b \<and> cell_at h b = Some (Obj c ps)"
      and qry: "array_at h query = Some (qa, map VStr Q)"
  shows "\<exists>out. getEntities h m query = Inr (VRef (length h), h @ [Arr out])
           \<and> out = filter (\<lambda>e. \<forall>k\<in>set Q. owns h e k) es
           \<and> (\<forall>E\<in>set es. E \<in> set out \<longleftrightarrow> (\<forall>k\<in>set Q. owns h E k))
           \<and> (Q = [] \<longrightarrow> out = es)"
  using meth reg filter_entities_objects [OF qry ents]
  by (simp add: getEntities_def alloc_def)

theorem getEntities_selects_owners_witness:
  "resolves ex_query_world 0 ''getEntities'' = Some ManagerC
   \<and> array_at ex_query_world (this_field ex_query_world 0 ''entities'')
       = Some (1, [VRef 3, VRef 4, VRef 5])
   \<and> array_at ex_query_world (VRef 6) = Some (6, map VStr [''position''])
   \<and> this_field ex_query_world 3 ''position'' = VUndefined
   \<and> getEntities ex_query_world 0 (VRef 6)
       = Inr (VRef 8, ex_query_world @ [Arr [VRef 3, VRef 5]])"
proof -
  have m: "resolves ex_query_world 0 ''getEntities'' = Some ManagerC"
    by (simp add: ex_query_world_def resolves_def cell_at_def)
  have r: "array_at ex_query_world (this_field ex_query_world 0 ''entities'')
             = Some (1, [VRef 3, VRef 4, VRef 5])"
    by (simp add: ex_query_world_def array_at_def this_field_def cell_at_def lookup_chain_def)
  have e: "\<forall>e\<in>set [VRef 3, VRef 4, VRef 5].
             \<exists>b c ps. e = VRef b \<and> cell_at ex_query_world b = Some (Obj c ps)"
    by (simp add: ex_query_world_def cell_at_def)
  have q: "array_at ex_query_world (VRef 6) = Some (6, map VStr [''position''])"
    by (simp add: ex_query_world_def array_at_def cell_at_def)
  have len: "length ex_query_world = 8" by (simp add: ex_query_world_def)
  have u: "this_field ex_query_world 3 ''position'' = VUndefined"
    by (simp add: ex_query_world_def this_field_def cell_at_def lookup_chain_def)
  have f: "filter (\<lambda>e. \<forall>k\<in>set [''position'']. owns ex_query_world e k)
             [VRef 3, VRef 4, VRef 5] = [VRef 3, VRef 5]"
    by (simp add: ex_query_world_def cell_at_def)
  from getEntities_selects_owners [OF m r e q] m r q len f u show ?thesis
    by simp
qed

section \<open>Facts about properties\<close>

lemma keys_upd_prop: "fst ` set (upd_prop k v ps) = fst ` set ps"
  by (induction k v ps rule: upd_prop.induct) auto

lemma map_of_upd_prop_at:
  "map_of (upd_prop k v ps) x = (if x = k \<and> k \<in> fst ` set ps then Some v else map_of ps x)"
  by (induction k v ps rule: upd_prop.induct) (auto simp: rev_image_eqI)

lemma set_ins_index: "set (ins_index n k v ps) = insert (k, v) (set ps)"
  by (induction n k v ps rule: ins_index.induct) (auto split: option.splits)

lemma map_of_ins_index_at:
  "k \<notin> fst ` set ps \<Longrightarrow>
     map_of (ins_index n k v ps) x = (if x = k then Some v else map_of ps x)"
  by (induction n k v ps rule: ins_index.induct) (auto split: option.splits)

lemma keys_set_prop: "fst ` set (set_prop k v ps) = insert k (fst ` set ps)"
  by (auto simp: set_prop_def keys_upd_prop set_ins_index split: option.splits)

lemma map_of_append_new:
  "k \<notin> fst ` set ps \<Longrightarrow> map_of (ps @ [(k, v)]) x = (if x = k then Some v else map_of ps x)"
  by (induction ps) auto

lemma map_of_set_prop_at:
  "map_of (set_prop k v ps) x = (if x = k then Some v else map_of ps x)"
  by (simp add: set_prop_def map_of_upd_prop_at map_of_ins_index_at map_of_append_new
        split: option.splits del: map_of_append)

lemma map_of_set_prop: "map_of (set_prop k v ps) = (map_of ps)(k \<mapsto> v)"
  by (rule ext) (simp add: map_of_set_prop_at)

lemma not_index_entityManager [simp]: "array_index ''entityManager'' = None"
  by (simp add: array_index_def is_digit_def)

lemma not_index_priority [simp]: "array_index ''priority'' = None"
  by (simp add: array_index_def is_digit_def)

lemma not_index_query [simp]: "array_index ''query'' = None"
  by (simp add: array_index_def is_digit_def)

section \<open>Systems and their queries\<close>

lemma resolves_manager:
  "resolves h m n = Some ManagerC \<Longrightarrow> \<exists>ps. cell_at h m = Some (Obj ManagerC ps) \<and> n \<notin> fst ` set ps"
  by (auto simp: resolves_def split: option.splits cell.splits if_splits)

lemma is_system_class_Some: "is_system_class c \<Longrightarrow> \<exists>pp. c = Some (SystemC pp)"
  by (cases c rule: is_system_class.cases) auto

lemma resolves_system:
  "is_system_class (resolves h t n) \<Longrightarrow>
     \<exists>pp ps. cell_at h t = Some (Obj (SystemC pp) ps) \<and> n \<notin> fst ` set ps \<and> n \<notin> fst ` set pp"
  by (drule is_system_class_Some)
     (auto simp: resolves_def split: option.splits cell.splits if_splits)

lemma resolves_cong: "cell_at h' a = cell_at h a \<Longrightarrow> resolves h' a n = resolves h a n"
  by (simp add: resolves_def)

lemma new_System_default_query:
  "new_System h pp p VUndefined =
     (length h,
      h @ [Obj (SystemC pp) [(''entityManager'', VNull),
                             (''priority'', if truthy p then p else VNum 0),
                             (''query'', VRef (Suc (length h)))],
           Arr []])"
  by (simp add: new_System_def alloc_def put_own_def cell_at_def set_prop_def nth_append
        list_update_append)

lemma new_System_cell:
  "new_System h pp p q = (s, h1) \<Longrightarrow>
     s = length h \<and>
     (\<exists>qv. cell_at h1 s = Some (Obj (SystemC pp) [(''entityManager'', VNull),
                             (''priority'', if truthy p then p else VNum 0),
                             (''query'', qv)]))"
  by (auto simp: new_System_def alloc_def put_own_def cell_at_def set_prop_def nth_append
        list_update_append Let_def split: if_splits)

lemma registerSystem_Inr:
  assumes reg: "registerSystem h m (VRef t) = Inr (r, h2)"
  shows "\<exists>c ps sa vs mps. r = VRef t \<and> cell_at h t = Some (Obj c ps)
           \<and> cell_at h m = Some (Obj ManagerC mps)
           \<and> array_at (h[t := Obj c (set_prop ''entityManager'' (VRef m) ps)])
                 (this_field (h[t := Obj c (set_prop ''entityManager'' (VRef m) ps)]) m ''systems'')
               = Some (sa, vs)
           \<and> h2 = (h[t := Obj c (set_prop ''entityManager'' (VRef m) ps)])[sa := Arr (vs @ [VRef t])]"
proof -
  from reg have meth: "resolves h m ''registerSystem'' = Some ManagerC"
    by (auto simp: registerSystem_def split: if_splits)
  from resolves_manager [OF meth] obtain mps where m: "cell_at h m = Some (Obj ManagerC mps)"
    by auto
  from reg meth obtain h1 where put: "put_prop h (VRef t) ''entityManager'' (VRef m) = Inr h1"
    by (auto simp: registerSystem_def split: sum.splits)
  then obtain c ps where t: "cell_at h t = Some (Obj c ps)"
    and h1: "h1 = h[t := Obj c (set_prop ''entityManager'' (VRef m) ps)]"
    by (auto simp: put_prop_def split: option.splits cell.splits)
  from reg meth put obtain sa vs where
    arr: "array_at h1 (this_field h1 m ''systems'') = Some (sa, vs)"
    and r: "r = VRef t" and h2: "h2 = h1[sa := Arr (vs @ [VRef t])]"
    by (auto simp: registerSystem_def split: option.splits)
  with m t h1 show ?thesis by auto
qed

text \<open>
  Claim C8. A system fresh from its constructor has no manager, and its
  \<open>getEntities()\<close> raises a TypeError. Once \<open>registerSystem\<close> has accepted a system
  object, the system's \<open>entityManager\<close> field is that manager and the system's
  \<open>getEntities()\<close> is exactly the manager's \<open>getEntities\<close> applied to the system's
  \<open>query\<close>.
\<close>

theorem System_getEntities_before_and_after_registration:
  assumes fresh: "new_System h0 pp p q = (s, h1)"
      and intact: "is_system_class (resolves h t ''getEntities'')"
      and reg: "registerSystem h m (VRef t) = Inr (r, h2)"
  shows "System_getEntities h1 s = Inl (TypeError, h1)
       \<and> r = VRef t
       \<and> this_field h2 t ''entityManager'' = VRef m
       \<and> System_getEntities h2 t = getEntities h2 m (this_field h2 t ''query'')"
proof -
  from new_System_cell [OF fresh] obtain qv where
    "cell_at h1 s = Some (Obj (SystemC pp) [(''entityManager'', VNull),
        (''priority'', if truthy p then p else VNum 0), (''query'', qv)])" by blast
  then have "this_field h1 s ''entityManager'' = VNull"
    by (simp add: this_field_def lookup_chain_def)
  then have before: "System_getEntities h1 s = Inl (TypeError, h1)"
    by (simp add: System_getEntities_def)
  from resolves_system [OF intact] obtain pp' ps where
    sysobj: "cell_at h t = Some (Obj (SystemC pp') ps)"
    and own: "''getEntities'' \<notin> fst ` set ps" and inh: "''getEntities'' \<notin> fst ` set pp'"
    by blast
  let ?ps = "set_prop ''entityManager'' (VRef m) ps"
  let ?h1 = "h[t := Obj (SystemC pp') ?ps]"
  from registerSystem_Inr [OF reg] sysobj obtain sa vs mps where
    r: "r = VRef t" and m: "cell_at h m = Some (Obj ManagerC mps)"
    and arr: "array_at ?h1 (this_field ?h1 m ''systems'') = Some (sa, vs)"
    and h2: "h2 = ?h1[sa := Arr (vs @ [VRef t])]" by auto
  from sysobj have tlt: "t < length h" by (simp add: cell_at_def split: if_splits)
  from m sysobj have mt: "m \<noteq> t" by auto
  from array_at_cell [OF arr] have sacell: "cell_at ?h1 sa = Some (Arr vs)" by simp
  with tlt have sat: "sa \<noteq> t" by (auto simp: cell_at_update)
  from sacell m mt have sam: "sa \<noteq> m" by (auto simp: cell_at_update)
  have t2: "cell_at h2 t = Some (Obj (SystemC pp') ?ps)"
    using h2 sat tlt by (simp add: cell_at_update)
  have m2: "cell_at h2 m = Some (Obj ManagerC mps)"
    using h2 sam mt m by (simp add: cell_at_update)
  have em: "this_field h2 t ''entityManager'' = VRef m"
    using t2 by (simp add: this_field_def lookup_chain_def map_of_set_prop)
  have meth2: "is_system_class (resolves h2 t ''getEntities'')"
    using t2 own inh by (simp add: resolves_def keys_set_prop)
  have notsys: "\<not> is_system_class (resolves h2 m ''getEntities'')"
    using m2 by (simp add: resolves_def)
  have "System_getEntities h2 t = getEntities h2 m (this_field h2 t ''query'')"
    using meth2 em notsys by (simp add: System_getEntities_def)
  with before r em show ?thesis by simp
qed

theorem System_getEntities_before_and_after_registration_witness:
  "new_System ex_game [(''query'', VRef 7)] VUndefined VUndefined = (8, ex_movable)
   \<and> is_system_class (resolves ex_movable 8 ''getEntities'')
   \<and> registerSystem ex_movable 0 (VRef 8) = Inr (VRef 8, ex_registered)
   \<and> System_getEntities ex_movable 8 = Inl (TypeError, ex_movable)
   \<and> this_field ex_registered 8 ''entityManager'' = VRef 0
   \<and> System_getEntities ex_registered 8
       = getEntities ex_registered 0 (this_field ex_registered 8 ''query'')"
proof -
  have n: "new_System ex_game [(''query'', VRef 7)] VUndefined VUndefined = (8, ex_movable)"
    by (simp add: new_System_default_query ex_movable_def) (simp add: ex_game_def)
  have i: "is_system_class (resolves ex_movable 8 ''getEntities'')"
    by (simp add: ex_movable_def ex_game_def resolves_def cell_at_def)
  have r: "registerSystem ex_movable 0 (VRef 8) = Inr (VRef 8, ex_registered)"
    by (simp add: ex_movable_def ex_game_def ex_registered_def registerSystem_def resolves_def
          cell_at_def put_prop_def set_prop_def array_at_def this_field_def lookup_chain_def)
  from System_getEntities_before_and_after_registration [OF n i r] n i r show ?thesis
    by simp
qed

lemma filter_entities_empty_query:
  assumes qry: "array_at h query = Some (qa, [])"
      and ents: "\<forall>e\<in>set es. \<exists>b c ps. e = VRef b \<and> cell_at h b = Some (Obj c ps)"
  shows "filter_entities h query es = Some es"
  using filter_entities_objects [of h query qa "[]" es] qry ents by simp

text \<open>
  Claim C6. Take a subclass of \<open>System\<close> whose prototype carries a \<open>query\<close> (the
  array \<open>pq\<close>), and construct an instance without a query argument. The constructor
  stores a fresh empty array under the instance's own \<open>query\<close>, which shadows the
  prototype's: the effective query is empty and is not the prototype's array. After
  registration with a manager whose registry is \<open>es\<close>, the instance's
  \<open>getEntities()\<close> returns the whole registry.
\<close>

theorem prototype_query_is_shadowed:
  assumes reg_meth: "resolves h m ''registerSystem'' = Some ManagerC"
      and get_meth: "resolves h m ''getEntities'' = Some ManagerC"
      and reg: "array_at h (this_field h m ''entities'') = Some (a, es)"
      and sys: "array_at h (this_field h m ''systems'') = Some (sa, ss)"
      and apart: "sa \<noteq> a"
      and ents: "\<forall>e\<in>set es. \<exists>b c ps. e = VRef b \<and> cell_at h b = Some (Obj c ps)"
      and proto: "map_of pp ''query'' = Some pq"
      and parr: "array_at h pq = Some (qa, Q)"
      and nosh: "''getEntities'' \<notin> fst ` set pp"
  shows "\<exists>s h1 h2 q. new_System h pp p VUndefined = (s, h1)
           \<and> registerSystem h1 m (VRef s) = Inr (VRef s, h2)
           \<and> this_field h2 s ''query'' = VRef q \<and> cell_at h2 q = Some (Arr [])
           \<and> VRef q \<noteq> pq
           \<and> array_at h2 (this_field h2 m ''entities'') = Some (a, es)
           \<and> System_getEntities h2 s = Inr (VRef (length h2), h2 @ [Arr es])"
proof -
  let ?s = "length h"
  let ?q = "Suc (length h)"
  let ?P = "if truthy p then p else VNum 0"
  let ?S = "Obj (SystemC pp) [(''entityManager'', VNull), (''priority'', ?P), (''query'', VRef ?q)]"
  let ?S' = "Obj (SystemC pp) [(''entityManager'', VRef m), (''priority'', ?P), (''query'', VRef ?q)]"
  let ?h1 = "h @ [?S, Arr []]"
  let ?ha = "?h1[?s := ?S']"
  let ?h2 = "?ha[sa := Arr (ss @ [VRef ?s])]"
  have new: "new_System h pp p VUndefined = (?s, ?h1)" by (rule new_System_default_query)
  from resolves_manager [OF reg_meth] obtain mps where
    m: "cell_at h m = Some (Obj ManagerC mps)" by auto
  then have mlt: "m < length h" by (simp add: cell_at_def split: if_splits)
  from array_at_cell [OF reg] have fa: "this_field h m ''entities'' = VRef a"
    and ca: "cell_at h a = Some (Arr es)" by simp_all
  from array_at_cell [OF sys] have fsa: "this_field h m ''systems'' = VRef sa"
    and csa: "cell_at h sa = Some (Arr ss)" by simp_all
  from array_at_cell [OF parr] have pq: "pq = VRef qa" and cqa: "cell_at h qa = Some (Arr Q)"
    by simp_all
  from cqa have "qa < length h" by (simp add: cell_at_def split: if_splits)
  with pq have differ: "VRef ?q \<noteq> pq" by simp
  from ca have alt: "a < length h" by (simp add: cell_at_def split: if_splits)
  from csa have salt: "sa < length h" by (simp add: cell_at_def split: if_splits)
  from m csa have msa: "m \<noteq> sa" by auto
  have old1: "\<And>x. x < length h \<Longrightarrow> cell_at ?h1 x = cell_at h x"
    by (simp add: cell_at_def nth_append)
  have olda: "\<And>x. x < length h \<Longrightarrow> cell_at ?ha x = cell_at h x"
    by (simp add: cell_at_def nth_append)
  have old2: "\<And>x. x < length h \<Longrightarrow> x \<noteq> sa \<Longrightarrow> cell_at ?h2 x = cell_at h x"
    by (simp add: cell_at_def nth_append)
  have s1: "cell_at ?h1 ?s = Some ?S" by (simp add: cell_at_def nth_append)
  have put: "put_prop ?h1 (VRef ?s) ''entityManager'' (VRef m) = Inr ?ha"
    using s1 by (simp add: put_prop_def set_prop_def)
  have meth1: "resolves ?h1 m ''registerSystem'' = Some ManagerC"
    using reg_meth old1 [OF mlt] by (simp add: resolves_def)
  have "this_field ?ha m ''systems'' = VRef sa"
    using fsa olda [OF mlt] by (simp add: this_field_def)
  moreover have "cell_at ?ha sa = Some (Arr ss)" using csa olda [OF salt] by simp
  ultimately have arr: "array_at ?ha (this_field ?ha m ''systems'') = Some (sa, ss)"
    by (simp add: array_at_def)
  have register: "registerSystem ?h1 m (VRef ?s) = Inr (VRef ?s, ?h2)"
    using meth1 put arr by (simp add: registerSystem_def)
  have s2: "cell_at ?h2 ?s = Some ?S'" using salt by (simp add: cell_at_def nth_append)
  have q2: "cell_at ?h2 ?q = Some (Arr [])" using salt by (simp add: cell_at_def nth_append)
  have m2: "cell_at ?h2 m = Some (Obj ManagerC mps)" using old2 [OF mlt msa] m by simp
  have qf: "this_field ?h2 ?s ''query'' = VRef ?q"
    using s2 by (simp add: this_field_def lookup_chain_def)
  have emf: "this_field ?h2 ?s ''entityManager'' = VRef m"
    using s2 by (simp add: this_field_def lookup_chain_def)
  have fa2: "this_field ?h2 m ''entities'' = VRef a"
    using fa old2 [OF mlt msa] by (simp add: this_field_def)
  have ca2: "cell_at ?h2 a = Some (Arr es)" using ca old2 [OF alt] apart by simp
  have reg2: "array_at ?h2 (this_field ?h2 m ''entities'') = Some (a, es)"
    using fa2 ca2 by (simp add: array_at_def)
  have ents2: "\<forall>e\<in>set es. \<exists>b c ps. e = VRef b \<and> cell_at ?h2 b = Some (Obj c ps)"
  proof
    fix e assume "e \<in> set es"
    with ents obtain b c ps where e: "e = VRef b" and b: "cell_at h b = Some (Obj c ps)"
      by blast
    from b have "b < length h" by (simp add: cell_at_def split: if_splits)
    moreover from b csa have "b \<noteq> sa" by auto
    ultimately have "cell_at ?h2 b = Some (Obj c ps)" using old2 b by simp
    with e show "\<exists>b c ps. e = VRef b \<and> cell_at ?h2 b = Some (Obj c ps)" by blast
  qed
  have qarr: "array_at ?h2 (VRef ?q) = Some (?q, [])" using q2 by (simp add: array_at_def)
  have get2: "resolves ?h2 m ''getEntities'' = Some ManagerC"
    using get_meth m m2 by (simp add: resolves_def)
  have sys_meth: "is_system_class (resolves ?h2 ?s ''getEntities'')"
    using s2 nosh by (simp add: resolves_def)
  have "getEntities ?h2 m (VRef ?q) = Inr (VRef (length ?h2), ?h2 @ [Arr es])"
    using get2 reg2 filter_entities_empty_query [OF qarr ents2]
    by (simp add: getEntities_def alloc_def)
  then have "System_getEntities ?h2 ?s = Inr (VRef (length ?h2), ?h2 @ [Arr es])"
    using sys_meth emf get2 qf by (simp add: System_getEntities_def)
  with new register qf q2 reg2 differ show ?thesis by blast
qed

theorem prototype_query_is_shadowed_witness:
  "resolves ex_game 0 ''registerSystem'' = Some ManagerC
   \<and> resolves ex_game 0 ''getEntities'' = Some ManagerC
   \<and> array_at ex_game (this_field ex_game 0 ''entities'') = Some (1, [VRef 3, VRef 4])
   \<and> array_at ex_game (this_field ex_game 0 ''systems'') = Some (2, [])
   \<and> map_of [(''query'', VRef 7)] ''query'' = Some (VRef 7)
   \<and> array_at ex_game (VRef 7) = Some (7, [VStr ''position'', VStr ''velocity''])
   \<and> (\<exists>s h1 h2 q. new_System ex_game [(''query'', VRef 7)] VUndefined VUndefined = (s, h1)
           \<and> registerSystem h1 0 (VRef s) = Inr (VRef s, h2)
           \<and> this_field h2 s ''query'' = VRef q \<and> cell_at h2 q = Some (Arr [])
           \<and> VRef q \<noteq> VRef 7
           \<and> System_getEntities h2 s = Inr (VRef (length h2), h2 @ [Arr [VRef 3, VRef 4]]))
   \<and> getEntities ex_registered 0 (VRef 7) = Inr (VRef 10, ex_registered @ [Arr [VRef 3]])"
proof -
  have rm: "resolves ex_game 0 ''registerSystem'' = Some ManagerC"
    by (simp add: ex_game_def resolves_def cell_at_def)
  have gm: "resolves ex_game 0 ''getEntities'' = Some ManagerC"
    by (simp add: ex_game_def resolves_def cell_at_def)
  have r: "array_at ex_game (this_field ex_game 0 ''entities'') = Some (1, [VRef 3, VRef 4])"
    by (simp add: ex_game_def array_at_def this_field_def cell_at_def lookup_chain_def)
  have s: "array_at ex_game (this_field ex_game 0 ''systems'') = Some (2, [])"
    by (simp add: ex_game_def array_at_def this_field_def cell_at_def lookup_chain_def)
  have e: "\<forall>e\<in>set [VRef 3, VRef 4].
             \<exists>b c ps. e = VRef b \<and> cell_at ex_game b = Some (Obj c ps)"
    by (simp add: ex_game_def cell_at_def)
  have p: "map_of [(''query'', VRef 7)] ''query'' = Some (VRef 7)" by simp
  have pa: "array_at ex_game (VRef 7) = Some (7, [VStr ''position'', VStr ''velocity''])"
    by (simp add: ex_game_def array_at_def cell_at_def)
  have ns: "''getEntities'' \<notin> fst ` set [(''query'', VRef 7)]" by simp
  have d: "(2::nat) \<noteq> 1" by simp
  have g: "getEntities ex_registered 0 (VRef 7) = Inr (VRef 10, ex_registered @ [Arr [VRef 3]])"
    by (simp add: ex_registered_def getEntities_def resolves_def cell_at_def array_at_def
          this_field_def lookup_chain_def alloc_def)
  from prototype_query_is_shadowed [OF rm gm r s d e p pa ns, of VUndefined]
  have "\<exists>s h1 h2 q. new_System ex_game [(''query'', VRef 7)] VUndefined VUndefined = (s, h1)
           \<and> registerSystem h1 0 (VRef s) = Inr (VRef s, h2)
           \<and> this_field h2 s ''query'' = VRef q \<and> cell_at h2 q = Some (Arr [])
           \<and> VRef q \<noteq> VRef 7
           \<and> System_getEntities h2 s = Inr (VRef (length h2), h2 @ [Arr [VRef 3, VRef 4]])"
    by blast
  with rm gm r s p pa g show ?thesis by blast
qed

section \<open>The tick\<close>






section \<open>The component factory: properties\<close>




lemma assign_into_Nil [simp]: "assign_into t [] = t"
  by (simp add: assign_into_def)




lemma map_fst_upd_prop: "map fst (upd_prop k v ps) = map fst ps"
  by (induction k v ps rule: upd_prop.induct) auto

lemma map_fst_set_prop_old: "k \<in> fst ` set ps \<Longrightarrow> map fst (set_prop k v ps) = map fst ps"
  by (simp add: set_prop_def map_fst_upd_prop)

lemma cell_at_append_old: "b < length h \<Longrightarrow> cell_at (h @ xs) b = cell_at h b"
  by (simp add: cell_at_def nth_append)

lemma cell_at_append_new: "cell_at (h @ c # xs) (length h) = Some c"
  by (simp add: cell_at_def)


lemma get_prop_append: "valid_val h v \<Longrightarrow> get_prop (h @ xs) v k = get_prop h v k"
  by (cases v) (simp_all add: valid_val_def cell_at_append_old)














text \<open>
  A key of \<open>options\<close> that names a property of \<open>Object.prototype\<close> passes the
  test \<open>key in computedOptions\<close> although \<open>defaults\<close> does not own it, and ends up
  as a fragment: \<open>compute({toString: 5}, {y: 1})\<close>.
\<close>

lemma compute_inherited_name_example:
  "compute [Obj PlainC [(''toString'', VNum 5)], Obj PlainC [(''y'', VNum 1)]] (VRef 0) (VRef 1)
     = Inr (VRef 2, [Obj PlainC [(''toString'', VNum 5)], Obj PlainC [(''y'', VNum 1)],
                     Arr [VRef 3, VRef 4],
                     Obj PlainC [(''y'', VNum 1)], Obj PlainC [(''toString'', VNum 5)]])"
  by code_simp

section \<open>Assigning fragments\<close>

lemma own_enum_frame:
  "valid_val h v \<Longrightarrow> v \<noteq> VRef e \<Longrightarrow> own_enum ((h @ xs)[e := c]) v = own_enum h v"
  by (cases v) (simp_all add: valid_val_def cell_at_update cell_at_append_old)

lemma object_assign_frame:
  "valid_val h a \<Longrightarrow> a \<noteq> VRef e \<Longrightarrow> valid_val h b \<Longrightarrow> b \<noteq> VRef e \<Longrightarrow>
     object_assign ((h @ xs)[e := c]) a b = object_assign h a b"
  by (simp add: object_assign_def own_enum_frame)

lemma upd_prop_append_new:
  "k \<notin> fst ` set ps \<Longrightarrow> upd_prop k v (ps @ [(k, w)]) = ps @ [(k, v)]"
  by (induction ps) auto

lemma upd_prop_ins_index:
  "k \<notin> fst ` set ps \<Longrightarrow> upd_prop k v (ins_index n k w ps) = ins_index n k v ps"
  by (induction n k w ps rule: ins_index.induct) (auto split: option.splits)

lemma set_prop_twice:
  "k \<notin> fst ` set ps \<Longrightarrow> set_prop k v (set_prop k w ps) = set_prop k v ps"
  by (simp add: set_prop_def set_ins_index upd_prop_append_new upd_prop_ins_index
        split: option.splits)

lemma assign_key_step:
  assumes elt: "e < length h"
      and frag: "cell_at h f = Some (Obj PlainC fs)"
      and fe: "f \<noteq> e"
      and kp: "k \<noteq> ''__proto__''"
      and inc: "map_of fs k = Some inc"
      and hop: "''hasOwnProperty'' \<notin> fst ` set psc"
  shows "assign_key ((h @ xs)[e := Obj EntityC psc]) e (VRef f) k =
           Inr (if typeof inc = TObject \<and> typeof (field_or_undefined psc k) = TObject
                then (h @ xs @ [Obj PlainC (object_assign ((h @ xs)[e := Obj EntityC psc])
                                              (field_or_undefined psc k) inc)])
                       [e := Obj EntityC (set_prop k (VRef (length h + length xs)) psc)]
                else if k \<in> fst ` set psc
                then (h @ xs)[e := Obj EntityC (set_prop k inc psc)]
                else (h @ xs @ [Obj PlainC []])
                       [e := Obj EntityC (set_prop k inc
                                            (set_prop k (VRef (length h + length xs)) psc))])"
proof -
  let ?hc = "(h @ xs)[e := Obj EntityC psc]"
  from frag have flt: "f < length h" by (simp add: cell_at_def split: if_splits)
  have fc: "cell_at ?hc f = Some (Obj PlainC fs)"
    using frag flt fe by (simp add: cell_at_update cell_at_append_old)
  have ec: "cell_at ?hc e = Some (Obj EntityC psc)"
    using elt by (simp add: cell_at_update)
  have g: "get_prop ?hc (VRef f) k = Some inc"
    using fc inc by (simp add: lookup_chain_def)
  have t: "this_field ?hc e k = field_or_undefined psc k"
    using ec by (simp add: this_field_def lookup_chain_def field_or_undefined_def
                   split: option.splits)
  have hm: "has_method ?hc (VRef e) ''hasOwnProperty''"
    using ec hop by (simp add: has_method_def object_prototype_names_def)
  have oe: "own_enum ?hc (VRef e) = psc" using ec by simp
  have len: "length ?hc = length h + length xs" by simp
  have app: "?hc @ [c] = (h @ xs @ [c])[e := Obj EntityC psc]" for c
    using elt by (simp add: list_update_append)
  have put: "put_own (H[e := Obj EntityC p]) e k v = H[e := Obj EntityC (set_prop k v p)]"
    if "e < length H" for H p v
    using that by (simp add: put_own_def cell_at_def)
  have elt': "e < length (h @ xs @ [c])" for c using elt by simp
  have elt'': "e < length (h @ xs)" using elt by simp
  show ?thesis
  proof (cases "typeof inc = TObject \<and> typeof (field_or_undefined psc k) = TObject")
    case True
    have "assign_key ?hc e (VRef f) k =
            Inr (put_own (?hc @ [Obj PlainC (object_assign ?hc (field_or_undefined psc k) inc)])
                   e k (VRef (length ?hc)))"
      using kp g t True by (simp add: assign_key_def alloc_def del: get_prop.simps)
    then have "assign_key ?hc e (VRef f) k =
            Inr ((h @ xs @ [Obj PlainC (object_assign ?hc (field_or_undefined psc k) inc)])
                   [e := Obj EntityC (set_prop k (VRef (length h + length xs)) psc)])"
      by (simp only: app put [OF elt'] len)
    with True show ?thesis by simp
  next
    case False
    show ?thesis
    proof (cases "k \<in> fst ` set psc")
      case True
      have "assign_key ?hc e (VRef f) k = Inr (put_own ?hc e k inc)"
        using kp g t hm oe False True
        by (auto simp add: assign_key_def simp del: get_prop.simps own_enum.simps)
      then have "assign_key ?hc e (VRef f) k =
              Inr ((h @ xs)[e := Obj EntityC (set_prop k inc psc)])"
        by (simp only: put [OF elt''])
      with False True show ?thesis by auto
    next
      case new: False
      have "assign_key ?hc e (VRef f) k =
              Inr (put_own (put_own (?hc @ [Obj PlainC []]) e k (VRef (length ?hc))) e k inc)"
        using kp g t hm oe False new
        by (auto simp add: assign_key_def alloc_def simp del: get_prop.simps own_enum.simps)
      then have "assign_key ?hc e (VRef f) k =
              Inr ((h @ xs @ [Obj PlainC []])
                     [e := Obj EntityC (set_prop k inc
                                          (set_prop k (VRef (length h + length xs)) psc))])"
        by (simp only: app put [OF elt'] len)
      with False new show ?thesis by auto
    qed
  qed
qed


lemma assign_key_step_abstract:
  assumes elt: "e < length h"
      and frag: "cell_at h f = Some (Obj PlainC fs)"
      and fe: "f \<noteq> e"
      and kp: "k \<noteq> ''__proto__''"
      and inc: "map_of fs k = Some inc"
      and hop: "''hasOwnProperty'' \<notin> fst ` set psc"
      and vinc: "valid_val h inc" "inc \<noteq> VRef e"
      and vcur: "valid_val h (field_or_undefined psc k)" "field_or_undefined psc k \<noteq> VRef e"
  shows "\<exists>v1 new. assign_key ((h @ xs)[e := Obj EntityC psc]) e (VRef f) k
                      = Inr ((h @ xs @ new)[e := Obj EntityC (set_prop k v1 psc)])
           \<and> (if typeof inc = TObject \<and> typeof (field_or_undefined psc k) = TObject
               then v1 = VRef (length h + length xs)
                    \<and> new = [Obj PlainC (object_assign h (field_or_undefined psc k) inc)]
               else v1 = inc)"
proof -
  note step = assign_key_step [OF elt frag fe kp inc hop, of xs]
  note oa = object_assign_frame [OF vcur vinc, of xs "Obj EntityC psc"]
  show ?thesis
  proof (cases "typeof inc = TObject \<and> typeof (field_or_undefined psc k) = TObject")
    case True
    show ?thesis
      apply (rule exI [of _ "VRef (length h + length xs)"])
      apply (rule exI [of _ "[Obj PlainC (object_assign h (field_or_undefined psc k) inc)]"])
      using step True oa by simp
  next
    case False
    show ?thesis
    proof (cases "k \<in> fst ` set psc")
      case True
      show ?thesis
        apply (rule exI [of _ inc], rule exI [of _ "[]"])
        using step False True by auto
    next
      case new: False
      show ?thesis
        apply (rule exI [of _ inc], rule exI [of _ "[Obj PlainC []]"])
        using step False new by (auto simp: set_prop_twice)
    qed
  qed
qed

lemma field_or_undefined_set_prop:
  "field_or_undefined (set_prop k v ps) x = (if x = k then v else field_or_undefined ps x)"
  by (simp add: field_or_undefined_def map_of_set_prop_at)

lemma assign_keys_effect:
  assumes elt: "e < length h"
      and frag: "cell_at h f = Some (Obj PlainC fs)"
      and fe: "f \<noteq> e"
      and fvalid: "\<forall>p\<in>set fs. valid_val h (snd p) \<and> snd p \<noteq> VRef e"
  shows "distinct ks \<Longrightarrow> set ks \<subseteq> fst ` set fs \<Longrightarrow> ''__proto__'' \<notin> set ks \<Longrightarrow>
         ''hasOwnProperty'' \<notin> set ks \<Longrightarrow> ''hasOwnProperty'' \<notin> fst ` set psc \<Longrightarrow>
         (\<forall>k\<in>set ks. valid_val h (field_or_undefined psc k)
                       \<and> field_or_undefined psc k \<noteq> VRef e) \<Longrightarrow>
         \<exists>psc' ys. assign_keys ((h @ xs)[e := Obj EntityC psc]) e (VRef f) ks
                      = Inr ((h @ xs @ ys)[e := Obj EntityC psc'])
            \<and> fst ` set psc' = fst ` set psc \<union> set ks
            \<and> (set ks \<subseteq> fst ` set psc \<longrightarrow> map fst psc' = map fst psc)
            \<and> (\<forall>k. k \<notin> set ks \<longrightarrow> map_of psc' k = map_of psc k)
            \<and> (\<forall>k\<in>set ks. \<forall>inc. map_of fs k = Some inc \<longrightarrow>
                  (if typeof inc = TObject \<and> typeof (field_or_undefined psc k) = TObject
                   then \<exists>n. map_of psc' k = Some (VRef n) \<and> length h + length xs \<le> n
                            \<and> cell_at (h @ xs @ ys) n
                                = Some (Obj PlainC (object_assign h (field_or_undefined psc k) inc))
                   else map_of psc' k = Some inc))"
proof (induction ks arbitrary: psc xs)
  case Nil
  show ?case by (rule exI [of _ psc], rule exI [of _ "[]"]) simp
next
  case (Cons k ks)
  from Cons.prems have dist: "distinct ks" and knew: "k \<notin> set ks"
    and sub: "set ks \<subseteq> fst ` set fs" and kfs: "k \<in> fst ` set fs"
    and np: "''__proto__'' \<notin> set ks" and kp: "k \<noteq> ''__proto__''"
    and nh: "''hasOwnProperty'' \<notin> set ks" and kh: "k \<noteq> ''hasOwnProperty''"
    and hop: "''hasOwnProperty'' \<notin> fst ` set psc"
    and vals: "\<forall>k\<in>set ks. valid_val h (field_or_undefined psc k)
                       \<and> field_or_undefined psc k \<noteq> VRef e"
    and vcur: "valid_val h (field_or_undefined psc k)" "field_or_undefined psc k \<noteq> VRef e"
    by auto
  from kfs obtain inc where inc: "map_of fs k = Some inc"
    by (metis map_of_eq_None_iff not_Some_eq)
  then have "(k, inc) \<in> set fs" by (rule map_of_SomeD)
  with fvalid have vinc: "valid_val h inc" "inc \<noteq> VRef e" by force+
  let ?cond = "typeof inc = TObject \<and> typeof (field_or_undefined psc k) = TObject"
  from assign_key_step_abstract [OF elt frag fe kp inc hop vinc vcur, of xs]
  obtain v1 new where
    step: "assign_key ((h @ xs)[e := Obj EntityC psc]) e (VRef f) k
             = Inr ((h @ xs @ new)[e := Obj EntityC (set_prop k v1 psc)])"
    and v1: "if ?cond
             then v1 = VRef (length h + length xs)
                  \<and> new = [Obj PlainC (object_assign h (field_or_undefined psc k) inc)]
             else v1 = inc"
    by blast
  let ?psc1 = "set_prop k v1 psc"
  have hop1: "''hasOwnProperty'' \<notin> fst ` set ?psc1"
    using hop kh by (simp add: keys_set_prop)
  have vals1: "\<forall>k\<in>set ks. valid_val h (field_or_undefined ?psc1 k)
                       \<and> field_or_undefined ?psc1 k \<noteq> VRef e"
    using vals knew by (auto simp: field_or_undefined_set_prop)
  from Cons.IH [OF dist sub np nh hop1 vals1, of "xs @ new"]
  obtain psc' ys where
    run: "assign_keys ((h @ (xs @ new))[e := Obj EntityC ?psc1]) e (VRef f) ks
            = Inr ((h @ (xs @ new) @ ys)[e := Obj EntityC psc'])"
    and keys: "fst ` set psc' = fst ` set ?psc1 \<union> set ks"
    and order: "set ks \<subseteq> fst ` set ?psc1 \<longrightarrow> map fst psc' = map fst ?psc1"
    and same: "\<forall>k. k \<notin> set ks \<longrightarrow> map_of psc' k = map_of ?psc1 k"
    and rest_ok: "\<forall>k\<in>set ks. \<forall>inc. map_of fs k = Some inc \<longrightarrow>
                  (if typeof inc = TObject \<and> typeof (field_or_undefined ?psc1 k) = TObject
                   then \<exists>n. map_of psc' k = Some (VRef n) \<and> length h + length (xs @ new) \<le> n
                            \<and> cell_at (h @ (xs @ new) @ ys) n
                                = Some (Obj PlainC (object_assign h (field_or_undefined ?psc1 k) inc))
                   else map_of psc' k = Some inc)"
    by blast
  have total: "assign_keys ((h @ xs)[e := Obj EntityC psc]) e (VRef f) (k # ks)
                 = Inr ((h @ xs @ (new @ ys))[e := Obj EntityC psc'])"
    using step run by simp
  have keys': "fst ` set psc' = fst ` set psc \<union> set (k # ks)"
    using keys by (auto simp: keys_set_prop)
  have order': "set (k # ks) \<subseteq> fst ` set psc \<longrightarrow> map fst psc' = map fst psc"
  proof
    assume a: "set (k # ks) \<subseteq> fst ` set psc"
    then have kin: "k \<in> fst ` set psc" by simp
    from a have "set ks \<subseteq> fst ` set ?psc1" by (auto simp: keys_set_prop)
    with order have "map fst psc' = map fst ?psc1" by blast
    with kin show "map fst psc' = map fst psc" by (simp add: map_fst_set_prop_old)
  qed
  have same': "\<forall>k'. k' \<notin> set (k # ks) \<longrightarrow> map_of psc' k' = map_of psc k'"
    using same by (simp add: map_of_set_prop_at)
  have mine: "map_of psc' k = Some v1" using same knew by (simp add: map_of_set_prop_at)
  have head: "if ?cond
              then \<exists>n. map_of psc' k = Some (VRef n) \<and> length h + length xs \<le> n
                       \<and> cell_at (h @ xs @ (new @ ys)) n
                           = Some (Obj PlainC (object_assign h (field_or_undefined psc k) inc))
              else map_of psc' k = Some inc"
  proof (cases ?cond)
    case True
    with v1 have "v1 = VRef (length h + length xs)"
      and "new = [Obj PlainC (object_assign h (field_or_undefined psc k) inc)]" by simp_all
    moreover from this have "cell_at (h @ xs @ (new @ ys)) (length h + length xs)
             = Some (Obj PlainC (object_assign h (field_or_undefined psc k) inc))"
      by (simp add: cell_at_def nth_append)
    ultimately show ?thesis using True mine by auto
  next
    case False
    with v1 mine show ?thesis by auto
  qed
  have tail: "\<forall>k'\<in>set ks. \<forall>inc. map_of fs k' = Some inc \<longrightarrow>
                  (if typeof inc = TObject \<and> typeof (field_or_undefined psc k') = TObject
                   then \<exists>n. map_of psc' k' = Some (VRef n) \<and> length h + length xs \<le> n
                            \<and> cell_at (h @ xs @ (new @ ys)) n
                                = Some (Obj PlainC (object_assign h (field_or_undefined psc k') inc))
                   else map_of psc' k' = Some inc)"
  proof (intro ballI allI impI)
    fix k' inc' assume k': "k' \<in> set ks" and inc': "map_of fs k' = Some inc'"
    from k' knew have ne: "k' \<noteq> k" by auto
    then have f1: "field_or_undefined ?psc1 k' = field_or_undefined psc k'"
      by (simp add: field_or_undefined_set_prop)
    from rest_ok k' inc' have
      "if typeof inc' = TObject \<and> typeof (field_or_undefined ?psc1 k') = TObject
       then \<exists>n. map_of psc' k' = Some (VRef n) \<and> length h + length (xs @ new) \<le> n
                \<and> cell_at (h @ (xs @ new) @ ys) n
                    = Some (Obj PlainC (object_assign h (field_or_undefined ?psc1 k') inc'))
       else map_of psc' k' = Some inc'" by blast
    then show "if typeof inc' = TObject \<and> typeof (field_or_undefined psc k') = TObject
               then \<exists>n. map_of psc' k' = Some (VRef n) \<and> length h + length xs \<le> n
                        \<and> cell_at (h @ xs @ (new @ ys)) n
                            = Some (Obj PlainC (object_assign h (field_or_undefined psc k') inc'))
               else map_of psc' k' = Some inc'"
      unfolding f1 by (auto split: if_splits)
  qed
  have all: "\<forall>k'\<in>set (k # ks). \<forall>inc. map_of fs k' = Some inc \<longrightarrow>
                  (if typeof inc = TObject \<and> typeof (field_or_undefined psc k') = TObject
                   then \<exists>n. map_of psc' k' = Some (VRef n) \<and> length h + length xs \<le> n
                            \<and> cell_at (h @ xs @ (new @ ys)) n
                                = Some (Obj PlainC (object_assign h (field_or_undefined psc k') inc))
                   else map_of psc' k' = Some inc)"
    using head tail inc by simp
  show ?case
    by (rule exI [of _ psc'], rule exI [of _ "new @ ys"]) (intro conjI total keys' order' same' all)
qed



lemma assign_one_fragment:
  assumes ent: "cell_at h e = Some (Obj EntityC ps)"
      and meth: "''assign'' \<notin> fst ` set ps"
      and hop: "''hasOwnProperty'' \<notin> fst ` set ps"
      and frag: "cell_at h f = Some (Obj PlainC fs)"
      and fdist: "distinct (map fst fs)"
      and fkeys: "''hasOwnProperty'' \<notin> fst ` set fs" "''__proto__'' \<notin> fst ` set fs"
      and fvalid: "\<forall>p\<in>set fs. valid_val h (snd p) \<and> snd p \<noteq> VRef e"
      and evalid: "\<forall>p\<in>set ps. valid_val h (snd p) \<and> snd p \<noteq> VRef e"
  shows "\<exists>ps' ys. assign h e [VRef f] = Inr (VRef e, (h @ ys)[e := Obj EntityC ps'])
           \<and> fst ` set ps' = fst ` set ps \<union> fst ` set fs
           \<and> (fst ` set fs \<subseteq> fst ` set ps \<longrightarrow> map fst ps' = map fst ps)
           \<and> (\<forall>k. k \<notin> fst ` set fs \<longrightarrow> map_of ps' k = map_of ps k)
           \<and> (\<forall>k inc. map_of fs k = Some inc \<longrightarrow>
                 (if typeof inc = TObject \<and> typeof (field_or_undefined ps k) = TObject
                  then \<exists>n. map_of ps' k = Some (VRef n) \<and> length h \<le> n
                           \<and> cell_at (h @ ys) n
                               = Some (Obj PlainC (object_assign h (field_or_undefined ps k) inc))
                  else map_of ps' k = Some inc))"
proof -
  from ent have elt: "e < length h" and nth: "h ! e = Obj EntityC ps"
    by (simp_all add: cell_at_def split: if_splits)
  from ent frag have fe: "f \<noteq> e" by auto
  have start: "(h @ [])[e := Obj EntityC ps] = h"
    using nth elt by (simp add: list_update_same_conv)
  have res: "resolves h e ''assign'' = Some EntityC"
    using ent meth by (simp add: resolves_def)
  have keys_in: "for_in_keys h (VRef f) = map fst fs"
    using frag by (simp add: for_in_keys_def)
  have vals: "\<forall>k\<in>set (map fst fs). valid_val h (field_or_undefined ps k)
                       \<and> field_or_undefined ps k \<noteq> VRef e"
  proof
    fix k assume "k \<in> set (map fst fs)"
    show "valid_val h (field_or_undefined ps k) \<and> field_or_undefined ps k \<noteq> VRef e"
    proof (cases "map_of ps k")
      case None
      then show ?thesis by (simp add: field_or_undefined_def valid_val_def)
    next
      case (Some v)
      then have "(k, v) \<in> set ps" by (rule map_of_SomeD)
      with evalid have "valid_val h (snd (k, v)) \<and> snd (k, v) \<noteq> VRef e" by (rule bspec)
      with Some show ?thesis by (simp add: field_or_undefined_def)
    qed
  qed
  have sub: "set (map fst fs) \<subseteq> fst ` set fs" by simp
  have np: "''__proto__'' \<notin> set (map fst fs)" using fkeys by simp
  have nh: "''hasOwnProperty'' \<notin> set (map fst fs)" using fkeys by simp
  note inst = assign_keys_effect [OF elt frag fe fvalid fdist sub np nh hop vals, of "[]"]
  have "\<exists>ps' ys. assign_keys h e (VRef f) (map fst fs) = Inr ((h @ ys)[e := Obj EntityC ps'])
      \<and> fst ` set ps' = fst ` set ps \<union> fst ` set fs
      \<and> (fst ` set fs \<subseteq> fst ` set ps \<longrightarrow> map fst ps' = map fst ps)
      \<and> (\<forall>k. k \<notin> fst ` set fs \<longrightarrow> map_of ps' k = map_of ps k)
      \<and> (\<forall>k\<in>fst ` set fs. \<forall>inc. map_of fs k = Some inc \<longrightarrow>
                  (if typeof inc = TObject \<and> typeof (field_or_undefined ps k) = TObject
                   then \<exists>n. map_of ps' k = Some (VRef n) \<and> length h \<le> n
                            \<and> cell_at (h @ ys) n
                                = Some (Obj PlainC (object_assign h (field_or_undefined ps k) inc))
                   else map_of ps' k = Some inc))"
    using inst unfolding start by (simp cong: if_cong)
  then obtain ps' ys where
    run: "assign_keys h e (VRef f) (map fst fs) = Inr ((h @ ys)[e := Obj EntityC ps'])"
    and keys': "fst ` set ps' = fst ` set ps \<union> fst ` set fs"
    and order': "fst ` set fs \<subseteq> fst ` set ps \<longrightarrow> map fst ps' = map fst ps"
    and same': "\<forall>k. k \<notin> fst ` set fs \<longrightarrow> map_of ps' k = map_of ps k"
    and eff: "\<forall>k\<in>fst ` set fs. \<forall>inc. map_of fs k = Some inc \<longrightarrow>
                  (if typeof inc = TObject \<and> typeof (field_or_undefined ps k) = TObject
                   then \<exists>n. map_of ps' k = Some (VRef n) \<and> length h \<le> n
                            \<and> cell_at (h @ ys) n
                                = Some (Obj PlainC (object_assign h (field_or_undefined ps k) inc))
                   else map_of ps' k = Some inc)"
    by (elim exE conjE)
  have result: "assign h e [VRef f] = Inr (VRef e, (h @ ys)[e := Obj EntityC ps'])"
    using res run by (simp add: assign_def keys_in)
  have eff': "\<forall>k inc. map_of fs k = Some inc \<longrightarrow>
                 (if typeof inc = TObject \<and> typeof (field_or_undefined ps k) = TObject
                  then \<exists>n. map_of ps' k = Some (VRef n) \<and> length h \<le> n
                           \<and> cell_at (h @ ys) n
                               = Some (Obj PlainC (object_assign h (field_or_undefined ps k) inc))
                  else map_of ps' k = Some inc)"
  proof (intro allI impI)
    fix k inc assume inc: "map_of fs k = Some inc"
    then have "(k, inc) \<in> set fs" by (rule map_of_SomeD)
    then have "k \<in> fst ` set fs" by (rule rev_image_eqI) simp
    with eff have "\<forall>inc. map_of fs k = Some inc \<longrightarrow>
                  (if typeof inc = TObject \<and> typeof (field_or_undefined ps k) = TObject
                   then \<exists>n. map_of ps' k = Some (VRef n) \<and> length h \<le> n
                            \<and> cell_at (h @ ys) n
                                = Some (Obj PlainC (object_assign h (field_or_undefined ps k) inc))
                   else map_of ps' k = Some inc)" by (rule bspec)
    with inc show "if typeof inc = TObject \<and> typeof (field_or_undefined ps k) = TObject
                  then \<exists>n. map_of ps' k = Some (VRef n) \<and> length h \<le> n
                           \<and> cell_at (h @ ys) n
                               = Some (Obj PlainC (object_assign h (field_or_undefined ps k) inc))
                  else map_of ps' k = Some inc"
      by (elim allE impE)
  qed
  show ?thesis
    by (rule exI [of _ ps'], rule exI [of _ ys]) (intro conjI result keys' order' same' eff')
qed



text \<open>
  Claim C3 at a failing input. The entity owns the container \<open>{p: 1}\<close> under
  \<open>a\<close> and is assigned \<open>{a: null}\<close>. The incoming value is no container, so
  the claim makes the field \<open>null\<close>; but \<open>typeof null\<close> is
  \<open>'object'\<close>, the merge branch runs, and the field ends up referring to a fresh
  copy of \<open>{p: 1}\<close>.
\<close>

theorem assign_null_over_container:
  "\<not> (field_container VNull \<and> field_container (this_field ex_null 0 ''a''))
   \<and> assign ex_null 0 [VRef 2]
       = Inr (VRef 0,
              [Obj EntityC [(''entityManager'', VNull), (''priority'', VNum 0), (''a'', VRef 3)],
               Obj PlainC [(''p'', VNum 1)],
               Obj PlainC [(''a'', VNull)],
               Obj PlainC [(''p'', VNum 1)]])
   \<and> VRef 3 \<noteq> VNull"
  unfolding ex_null_def by code_simp

text \<open>
  What holds of the replacing branch in general: when the incoming value or the entity's
  current value under \<open>k\<close> does not have \<open>typeof\<close> equal to
  \<open>'object'\<close>, the field becomes the incoming value itself and \<open>assign\<close>
  returns the entity.
\<close>

lemma assign_replaces_unless_both_objects:
  assumes ent: "cell_at h e = Some (Obj EntityC ps)"
      and meth: "''assign'' \<notin> fst ` set ps"
      and hop: "''hasOwnProperty'' \<notin> fst ` set ps"
      and frag: "cell_at h f = Some (Obj PlainC fs)"
      and fdist: "distinct (map fst fs)"
      and fkeys: "''hasOwnProperty'' \<notin> fst ` set fs" "''__proto__'' \<notin> fst ` set fs"
      and fvalid: "\<forall>p\<in>set fs. valid_val h (snd p) \<and> snd p \<noteq> VRef e"
      and evalid: "\<forall>p\<in>set ps. valid_val h (snd p) \<and> snd p \<noteq> VRef e"
      and inc: "map_of fs k = Some inc"
      and gate: "\<not> (typeof inc = TObject \<and> typeof (this_field h e k) = TObject)"
  shows "\<exists>h' ps'. assign h e [VRef f] = Inr (VRef e, h')
           \<and> cell_at h' e = Some (Obj EntityC ps') \<and> map_of ps' k = Some inc"
proof -
  from assign_one_fragment [OF ent meth hop frag fdist fkeys fvalid evalid]
  obtain ps' ys where
    run: "assign h e [VRef f] = Inr (VRef e, (h @ ys)[e := Obj EntityC ps'])"
    and eff: "\<forall>k inc. map_of fs k = Some inc \<longrightarrow>
                 (if typeof inc = TObject \<and> typeof (field_or_undefined ps k) = TObject
                  then \<exists>n. map_of ps' k = Some (VRef n) \<and> length h \<le> n
                           \<and> cell_at (h @ ys) n
                               = Some (Obj PlainC (object_assign h (field_or_undefined ps k) inc))
                  else map_of ps' k = Some inc)"
    by (elim exE conjE)
  from ent have elt: "e < length h" by (simp add: cell_at_def split: if_splits)
  have tf: "this_field h e k = field_or_undefined ps k"
    using ent by (simp add: this_field_def lookup_chain_def field_or_undefined_def
                       split: option.splits)
  from eff inc have "if typeof inc = TObject \<and> typeof (field_or_undefined ps k) = TObject
                  then \<exists>n. map_of ps' k = Some (VRef n) \<and> length h \<le> n
                           \<and> cell_at (h @ ys) n
                               = Some (Obj PlainC (object_assign h (field_or_undefined ps k) inc))
                  else map_of ps' k = Some inc"
    by (elim allE impE)
  with gate tf have "map_of ps' k = Some inc" by (auto split: if_splits)
  moreover have "cell_at ((h @ ys)[e := Obj EntityC ps']) e = Some (Obj EntityC ps')"
    using elt by (simp add: cell_at_update)
  ultimately show ?thesis using run by blast
qed

section \<open>The bookkeeping fields\<close>

lemma cell_keeps_refl: "cell_keeps c c"
  by (cases c) auto





lemma is_manager_Obj [simp]: "is_manager (Obj c ps) = (c = ManagerC)"
  by (cases c) auto


lemma keeps_refl: "keeps h h"
  by (simp add: keeps_def cell_keeps_refl)








lemma keeps_arr:
  assumes "keeps h h'" and "cell_at h a = Some (Arr vs)"
  shows "\<exists>vs'. cell_at h' a = Some (Arr vs')"
proof -
  from assms(2) have a: "a < length h" "h ! a = Arr vs"
    by (simp_all add: cell_at_def split: if_splits)
  from assms(1) a have g: "cell_keeps (Arr vs) (h' ! a)" and a': "a < length h'"
    by (auto simp: keeps_def)
  from g obtain vs' where "h' ! a = Arr vs'"
    by (cases "h' ! a") auto
  with a' show ?thesis by (simp add: cell_at_def)
qed









lemma keeps_update_obj:
  assumes "cell_at h e = Some (Obj c ps)"
  shows "keeps h (h[e := Obj c (set_prop k v ps)])"
proof -
  from assms have e: "e < length h" "h ! e = Obj c ps"
    by (simp_all add: cell_at_def split: if_splits)
  have "cell_keeps (h ! x) (h[e := Obj c (set_prop k v ps)] ! x)" if "x < length h" for x
    using that e by (cases "x = e") (simp_all add: cell_keeps_refl keys_set_prop subset_insertI)
  then show ?thesis by (simp add: keeps_def)
qed

lemma keeps_put_own: "keeps h (put_own h e k v)"
  by (simp add: put_own_def keeps_refl keeps_update_obj split: option.splits cell.splits)





















lemma not_index_entities [simp]: "array_index ''entities'' = None"
  by (simp add: array_index_def is_digit_def)

lemma not_index_systems [simp]: "array_index ''systems'' = None"
  by (simp add: array_index_def is_digit_def)







































end
